theory Spec2Isabelle
  imports Complex_Main
begin

section \<open>Errors\<close>

text \<open>
  The Python exceptions that the modelled code can raise.  A function that may raise
  returns \<open>error + 'a\<close>, with \<open>Inl\<close> carrying the exception.
\<close>

datatype error = IndexError | KeyError | ValueError | AttributeError

section \<open>Sparse matrices (the part of \<open>scipy.sparse\<close> that \<open>variable.py\<close> calls)\<close>

text \<open>
  \<open>scipy.sparse\<close> is an external library.  Its matrices are modelled by what they
  store.  The stored values are floating point numbers in the source; they are modelled
  as \<open>real\<close>: the only value \<open>variable.py\<close> ever stores is \<open>1.0\<close>.

  A COO matrix is the three parallel arrays handed to \<open>sp.coo_matrix\<close> and a shape.
  The constructor rejects arrays of different lengths and indices outside the shape.
\<close>

record coo_matrix =
  coo_data :: "real list"
  coo_row :: "nat list"
  coo_col :: "nat list"
  coo_shape :: "nat \<times> nat"

definition sp_coo_matrix ::
  "real list \<Rightarrow> nat list \<Rightarrow> nat list \<Rightarrow> nat \<times> nat \<Rightarrow> error + coo_matrix" where
  "sp_coo_matrix data row col shp =
     (if length row \<noteq> length data \<or> length col \<noteq> length data then Inl ValueError
      else if list_ex (\<lambda>r. fst shp \<le> r) row \<or> list_ex (\<lambda>c. snd shp \<le> c) col
        then Inl ValueError
      else Inr \<lparr>coo_data = data, coo_row = row, coo_col = col, coo_shape = shp\<rparr>)"

text \<open>
  A CSC matrix stores, for each column, its entries as (row, value) pairs with the rows
  increasing and no row twice (this is the content of \<open>indptr\<close>, \<open>indices\<close> and
  \<open>data\<close>).  \<open>tocsc\<close> gathers the COO triples of each column and adds up the
  values of triples that share a position.
\<close>

record csc_matrix =
  csc_shape :: "nat \<times> nat"
  csc_cols :: "(nat \<times> real) list list"

definition coo_col_entries :: "coo_matrix \<Rightarrow> nat \<Rightarrow> (nat \<times> real) list" where
  "coo_col_entries A c =
     map (\<lambda>(r, c', v). (r, v))
       (filter (\<lambda>(r, c', v). c' = c) (zip (coo_row A) (zip (coo_col A) (coo_data A))))"

definition sum_at_row :: "(nat \<times> real) list \<Rightarrow> nat \<Rightarrow> real" where
  "sum_at_row es r = sum_list (map snd (filter (\<lambda>(r', v). r' = r) es))"

definition csc_column :: "(nat \<times> real) list \<Rightarrow> (nat \<times> real) list" where
  "csc_column es = map (\<lambda>r. (r, sum_at_row es r)) (sort (remdups (map fst es)))"

definition tocsc :: "coo_matrix \<Rightarrow> csc_matrix" where
  "tocsc A = \<lparr>csc_shape = coo_shape A,
              csc_cols = map (\<lambda>c. csc_column (coo_col_entries A c)) [0..<snd (coo_shape A)]\<rparr>"

text \<open>The entry of a CSC matrix at a position, and the number of nonzeros of a column.\<close>

definition csc_entry :: "csc_matrix \<Rightarrow> nat \<Rightarrow> nat \<Rightarrow> real" where
  "csc_entry M r c = sum_at_row (csc_cols M ! c) r"

definition col_nnz :: "csc_matrix \<Rightarrow> nat \<Rightarrow> nat" where
  "col_nnz M c = length (filter (\<lambda>(r, v). v \<noteq> 0) (csc_cols M ! c))"

text \<open>
  \<open>M * x\<close> for a sparse matrix and a vector is the matrix-vector product; it raises
  when the length of \<open>x\<close> is not the number of columns.
\<close>

definition matvec :: "csc_matrix \<Rightarrow> real list \<Rightarrow> error + real list" where
  "matvec M x =
     (if length x \<noteq> snd (csc_shape M) then Inl ValueError
      else Inr (map (\<lambda>r. sum_list (map (\<lambda>c. csc_entry M r c * x ! c) [0..<snd (csc_shape M)]))
                  [0..<fst (csc_shape M)]))"

text \<open>
  \<open>np.reshape(y, (m, k), 'F')\<close>: the matrix, as a list of rows, whose entry
  \<open>(i, j)\<close> is \<open>y[j * m + i]\<close> (column-major order); it raises when the sizes differ.
\<close>

definition reshape_F :: "real list \<Rightarrow> nat \<times> nat \<Rightarrow> error + real list list" where
  "reshape_F y shp =
     (if length y \<noteq> fst shp * snd shp then Inl ValueError
      else Inr (map (\<lambda>i. map (\<lambda>j. y ! (j * fst shp + i)) [0..<snd shp]) [0..<fst shp]))"

text \<open>\<open>sp.eye(k)\<close>: ones on the main diagonal of a \<open>k \<times> k\<close> matrix.\<close>

definition sp_eye :: "nat \<Rightarrow> coo_matrix" where
  "sp_eye k = \<lparr>coo_data = replicate k 1, coo_row = [0..<k], coo_col = [0..<k],
              coo_shape = (k, k)\<rparr>"

section \<open>\<open>upper_tri_to_full\<close>\<close>

text \<open>
  The state of the two nested loops is \<open>(val_arr, row_arr, col_arr, count)\<close>.
  \<open>tri_body n i j\<close> is one pass through the body of the inner loop.  The argument
  \<open>n\<close> is a dimension of a shape, a natural number.
\<close>

type_synonym tri_state = "real list \<times> nat list \<times> nat list \<times> nat"

definition tri_body :: "nat \<Rightarrow> nat \<Rightarrow> nat \<Rightarrow> tri_state \<Rightarrow> tri_state" where
  "tri_body n i j st =
     (case st of (val_arr, row_arr, col_arr, count) \<Rightarrow>
        let col_arr = col_arr @ [count];
            row_arr = row_arr @ [j * n + i];
            val_arr = val_arr @ [1]
        in if i \<noteq> j
           then (val_arr @ [1], row_arr @ [i * n + j], col_arr @ [count], count + 1)
           else (val_arr, row_arr, col_arr, count + 1))"

definition tri_loop :: "nat \<Rightarrow> tri_state" where
  "tri_loop n = fold (\<lambda>i. fold (tri_body n i) [i..<n]) [0..<n] ([], [], [], 0)"

definition upper_tri_to_full :: "nat \<Rightarrow> error + csc_matrix" where
  "upper_tri_to_full n =
     (let entries = n * (n + 1) div 2 in
      case tri_loop n of (val_arr, row_arr, col_arr, count) \<Rightarrow>
        (case sp_coo_matrix val_arr row_arr col_arr (n * n, entries) of
           Inl e \<Rightarrow> Inl e
         | Inr A \<Rightarrow> Inr (tocsc A)))"


section \<open>The packed enumeration of the upper triangle\<close>

text \<open>
  The order of the packed vector as the specification words it: for row \<open>i\<close> from
  \<open>0\<close> to \<open>n - 1\<close>, for column \<open>j\<close> from \<open>i\<close> to \<open>n - 1\<close>.
  \<open>packed_index n i j\<close> is the position of the pair \<open>(i, j)\<close> in that order, and
  \<open>sym_full n p\<close> is the full symmetric matrix whose entries \<open>(i, j)\<close> and
  \<open>(j, i)\<close>, for \<open>i \<le> j\<close>, are both the entry of \<open>p\<close> for the pair
  \<open>(i, j)\<close>.  \<open>flatten_F\<close> lists a matrix column after column.
\<close>

definition packed_pairs :: "nat \<Rightarrow> (nat \<times> nat) list" where
  "packed_pairs n = concat (map (\<lambda>i. map (\<lambda>j. (i, j)) [i..<n]) [0..<n])"

definition packed_index :: "nat \<Rightarrow> nat \<Rightarrow> nat \<Rightarrow> nat" where
  "packed_index n i j = length (takeWhile (\<lambda>q. q \<noteq> (i, j)) (packed_pairs n))"

definition sym_full :: "nat \<Rightarrow> real list \<Rightarrow> nat \<Rightarrow> nat \<Rightarrow> real" where
  "sym_full n p i j = p ! packed_index n (min i j) (max i j)"

definition flatten_F :: "nat \<Rightarrow> (nat \<Rightarrow> nat \<Rightarrow> real) \<Rightarrow> real list" where
  "flatten_F n S = concat (map (\<lambda>j. map (\<lambda>i. S i j) [0..<n]) [0..<n])"

text \<open>The diagonal entries of a packed vector, in the order of the enumeration.\<close>

definition packed_diag :: "nat \<Rightarrow> real list \<Rightarrow> real list" where
  "packed_diag n p = map snd (filter (\<lambda>((i, j), x). i = j) (zip (packed_pairs n) p))"

text \<open>
  Auxiliary functions for the proofs: the COO triples that the loop appends for a list
  of pairs when the counter starts at \<open>k\<close>, the entries of the column of one pair in
  the order the loop appends them, and the same column with its rows increasing.
\<close>

fun tri_triples :: "nat \<Rightarrow> nat \<Rightarrow> (nat \<times> nat) list \<Rightarrow> (nat \<times> nat \<times> real) list" where
  "tri_triples n k [] = []"
| "tri_triples n k ((i, j) # ps) =
     (j * n + i, k, 1) # (if i \<noteq> j then [(i * n + j, k, 1)] else [])
       @ tri_triples n (Suc k) ps"

definition raw_col :: "nat \<Rightarrow> nat \<times> nat \<Rightarrow> (nat \<times> real) list" where
  "raw_col n p =
     (case p of (i, j) \<Rightarrow> (j * n + i, 1) # (if i \<noteq> j then [(i * n + j, 1)] else []))"

definition col_of :: "nat \<Rightarrow> nat \<times> nat \<Rightarrow> (nat \<times> real) list" where
  "col_of n p =
     (case p of (i, j) \<Rightarrow>
        if i = j then [(i * n + i, 1)] else [(i * n + j, 1), (j * n + i, 1)])"

text \<open>The lexicographic order on pairs, in which the enumeration is increasing.\<close>

definition pair_less :: "nat \<times> nat \<Rightarrow> nat \<times> nat \<Rightarrow> bool" where
  "pair_less a b = (fst a < fst b \<or> (fst a = fst b \<and> snd a < snd b))"

section \<open>The class \<open>Variable\<close>\<close>

text \<open>
  The affine operators of \<open>cvxpy.lin_ops.lin_utils\<close> and the constraint class
  \<open>PSD\<close> are not in the modelled file; \<open>variable.py\<close> only builds terms with them.
  Each call of a function that the module provides is kept as a constructor applied to
  the arguments of the call (the last argument of \<open>create_const\<close> is the keyword
  \<open>sparse\<close>).
\<close>

datatype lin_op =
    create_var "nat list" int
  | create_const csc_matrix "nat list" bool
  | mul_expr lin_op lin_op "nat list"
  | reshape lin_op "nat list"

datatype constraint =
    create_geq lin_op
  | create_leq lin_op
  | PSD lin_op

text \<open>
  \<open>lu.neg\<close>: the module \<open>lin_utils\<close> provides the negation of a term under the
  name \<open>neg_expr\<close> and has no attribute \<open>neg\<close>.  The lookup \<open>lu.neg\<close> in the last
  branch of \<open>canonicalize\<close> therefore raises \<open>AttributeError\<close>, before \<open>PSD\<close> is
  called.
\<close>

definition neg :: "lin_op \<Rightarrow> error + lin_op" where
  "neg operator = Inl AttributeError"

text \<open>
  The fields of an instance: \<open>id_var\<close> is \<open>self.id\<close>, \<open>name_var\<close> is
  \<open>self._name\<close>, \<open>primal_value\<close> is \<open>self.primal_value\<close> (\<open>None\<close> is Python's
  \<open>None\<close>); \<open>shape\<close> (a tuple of dimensions) and \<open>attributes\<close> (a dictionary from
  attribute names to booleans) are the fields kept by the base class \<open>Leaf\<close>.
\<close>

record 'v variable =
  id_var :: int
  name_var :: string
  primal_value :: "'v option"
  shape :: "nat list"
  attributes :: "string \<rightharpoonup> bool"

text \<open>Subscripts: \<open>t[i]\<close> on a tuple and \<open>d[k]\<close> on a dictionary raise when out of range.\<close>

definition getitem_tuple :: "'a list \<Rightarrow> nat \<Rightarrow> error + 'a" where
  "getitem_tuple t i = (if i < length t then Inr (t ! i) else Inl IndexError)"

definition getitem_dict :: "('k \<rightharpoonup> 'a) \<Rightarrow> 'k \<Rightarrow> error + 'a" where
  "getitem_dict d k = (case d k of None \<Rightarrow> Inl KeyError | Some x \<Rightarrow> Inr x)"

text \<open>
  Modelled from the spec: the methods \<open>is_nonneg\<close>, \<open>is_nonpos\<close> and
  \<open>is_symmetric\<close> of the base class \<open>Leaf\<close> are missing from the sources.  By the
  specification \<open>nonneg\<close> and \<open>nonpos\<close> are the flags of these names, and the
  symmetric structure is set directly or implied by \<open>PSD\<close> or \<open>NSD\<close>.
\<close>

definition attr_set :: "'v variable \<Rightarrow> string \<Rightarrow> bool" where
  "attr_set self key = (attributes self key = Some True)"

definition is_nonneg :: "'v variable \<Rightarrow> bool" where
  "is_nonneg self = attr_set self ''nonneg''"

definition is_nonpos :: "'v variable \<Rightarrow> bool" where
  "is_nonpos self = attr_set self ''nonpos''"

definition is_symmetric :: "'v variable \<Rightarrow> bool" where
  "is_symmetric self =
     (attr_set self ''symmetric'' \<or> attr_set self ''PSD'' \<or> attr_set self ''NSD'')"

text \<open>
  Modelled from the spec: the constructor of \<open>Leaf\<close>, which stores and checks shape
  and attributes, is missing from the sources.  By the data model of the specification a
  constructed variable has the five flags in its attribute dictionary, and a square
  two-dimensional shape when the symmetric structure is set.
\<close>

definition well_constructed :: "'v variable \<Rightarrow> bool" where
  "well_constructed self =
     ((\<forall>key \<in> set [''nonneg'', ''nonpos'', ''symmetric'', ''PSD'', ''NSD''].
         attributes self key \<noteq> None)
      \<and> (is_symmetric self \<longrightarrow>
            length (shape self) = 2 \<and> shape self ! 0 = shape self ! 1))"

definition name :: "'v variable \<Rightarrow> string" where
  "name self = name_var self"

definition save_value :: "'v variable \<Rightarrow> 'v option \<Rightarrow> 'v variable" where
  "save_value self val = self\<lparr>primal_value := val\<rparr>"

definition value_getter :: "'v variable \<Rightarrow> 'v option" where
  "value_getter self = primal_value self"

text \<open>
  The setter of \<open>value\<close>.  \<open>Leaf._validate_value\<close> is missing from the sources and
  is a parameter: it returns the validated value or raises.  The result is what the
  call returns or raises, and the instance after the call.
\<close>

definition value_setter ::
  "('v variable \<Rightarrow> 'v option \<Rightarrow> error + 'v option) \<Rightarrow> 'v variable \<Rightarrow> 'v option
     \<Rightarrow> (error + unit) \<times> 'v variable" where
  "value_setter validate_value self val =
     (case validate_value self val of
        Inl e \<Rightarrow> (Inl e, self)
      | Inr val' \<Rightarrow> (Inr (), save_value self val'))"

text \<open>The dictionary returned by \<open>grad\<close> is the list of its items.\<close>

definition grad :: "'v variable \<Rightarrow> error + ('v variable \<times> csc_matrix) list" where
  "grad self =
     (case getitem_tuple (shape self) 0 of
        Inl e \<Rightarrow> Inl e
      | Inr d0 \<Rightarrow>
          (case getitem_tuple (shape self) 1 of
             Inl e \<Rightarrow> Inl e
           | Inr d1 \<Rightarrow> Inr [(self, tocsc (sp_eye (d0 * d1)))]))"

definition variables :: "'v variable \<Rightarrow> 'v variable list" where
  "variables self = [self]"

definition canonicalize :: "'v variable \<Rightarrow> error + lin_op \<times> constraint list" where
  "canonicalize self =
     (case
        (if is_symmetric self then
           (case getitem_tuple (shape self) 0 of
              Inl e \<Rightarrow> Inl e
            | Inr n \<Rightarrow>
                let shape' = (n * (n + 1) div 2, 1);
                    obj = create_var [fst shape', snd shape'] (id_var self)
                in (case upper_tri_to_full n of
                      Inl e \<Rightarrow> Inl e
                    | Inr M \<Rightarrow>
                        let mat = create_const M [n * n, fst shape'] True;
                            obj = mul_expr mat obj [n * n, 1];
                            obj = reshape obj [n, n]
                        in Inr obj))
         else Inr (create_var (shape self) (id_var self)))
      of
        Inl e \<Rightarrow> Inl e
      | Inr obj \<Rightarrow>
          if is_nonneg self then Inr (obj, [create_geq obj])
          else if is_nonpos self then Inr (obj, [create_leq obj])
          else (case getitem_dict (attributes self) ''PSD'' of
                  Inl e \<Rightarrow> Inl e
                | Inr psd \<Rightarrow>
                    if psd then Inr (obj, [PSD obj])
                    else (case getitem_dict (attributes self) ''NSD'' of
                            Inl e \<Rightarrow> Inl e
                          | Inr nsd \<Rightarrow>
                              if nsd then
                                (case neg obj of
                                   Inl e \<Rightarrow> Inl e
                                 | Inr nobj \<Rightarrow> Inr (obj, [PSD nobj]))
                              else Inr (obj, []))))"

text \<open>
  The affine term that \<open>canonicalize\<close> builds in the symmetric branch, for the
  dimension \<open>n\<close>, the id \<open>v\<close> and the expansion map \<open>M\<close>.
\<close>

definition packed_term :: "nat \<Rightarrow> int \<Rightarrow> csc_matrix \<Rightarrow> lin_op" where
  "packed_term n v M =
     reshape (mul_expr (create_const M [n * n, n * (n + 1) div 2] True)
                (create_var [n * (n + 1) div 2, 1] v) [n * n, 1]) [n, n]"

text \<open>
  The methods as calls on an instance: what a call returns or raises, and the instance
  after the call.  Only \<open>save_value\<close> and the setter of \<open>value\<close> assign to a field.
\<close>

datatype 'v call =
    Call_name
  | Call_save_value "'v option"
  | Call_value
  | Call_set_value "'v option"
  | Call_grad
  | Call_variables
  | Call_canonicalize

datatype 'v returned =
    Ret_none
  | Ret_name string
  | Ret_value "'v option"
  | Ret_grad "('v variable \<times> csc_matrix) list"
  | Ret_variables "'v variable list"
  | Ret_canonicalize "lin_op \<times> constraint list"

definition invoke ::
  "('v variable \<Rightarrow> 'v option \<Rightarrow> error + 'v option) \<Rightarrow> 'v variable \<Rightarrow> 'v call
     \<Rightarrow> (error + 'v returned) \<times> 'v variable" where
  "invoke validate_value self c =
     (case c of
        Call_name \<Rightarrow> (Inr (Ret_name (name self)), self)
      | Call_save_value val \<Rightarrow> (Inr Ret_none, save_value self val)
      | Call_value \<Rightarrow> (Inr (Ret_value (value_getter self)), self)
      | Call_set_value val \<Rightarrow>
          (case value_setter validate_value self val of
             (Inl e, self') \<Rightarrow> (Inl e, self')
           | (Inr u, self') \<Rightarrow> (Inr Ret_none, self'))
      | Call_grad \<Rightarrow> (map_sum (\<lambda>e. e) Ret_grad (grad self), self)
      | Call_variables \<Rightarrow> (Inr (Ret_variables (variables self)), self)
      | Call_canonicalize \<Rightarrow> (map_sum (\<lambda>e. e) Ret_canonicalize (canonicalize self), self))"

text \<open>
  Modelled from the spec: the constructor of \<open>Leaf\<close> (missing from the sources) builds
  the attribute dictionary from the keyword arguments of the call; a flag that is not
  given is false.
\<close>

definition leaf_attributes :: "(string \<times> bool) list \<Rightarrow> (string \<rightharpoonup> bool)" where
  "leaf_attributes kwargs =
     map_of (kwargs @ map (\<lambda>key. (key, False))
                        [''nonneg'', ''nonpos'', ''symmetric'', ''PSD'', ''NSD''])"

text \<open>
  Modelled from the spec: \<open>Leaf._validate_value\<close> (missing from the sources) rejects
  a value whose shape is not the shape of the variable and returns an accepted value.
  Here a value is a matrix, given as the list of its rows, and \<open>None\<close> is accepted.
\<close>

definition validate_shape ::
  "real list list variable \<Rightarrow> real list list option \<Rightarrow> error + real list list option" where
  "validate_shape self val =
     (case val of
        None \<Rightarrow> Inr None
      | Some rows \<Rightarrow>
          if length (shape self) = 2 \<and> length rows = shape self ! 0
             \<and> list_all (\<lambda>row. length row = shape self ! 1) rows
          then Inr val else Inl ValueError)"

section \<open>The methods with the instance threaded through\<close>

text \<open>
  For the effect of a method on the instance, its body is translated statement by
  statement into a function from the instance before the call to what the call returns
  or raises and the instance after it.  \<open>return_st\<close> is \<open>return\<close>, \<open>bind_st\<close>
  runs a statement and then the rest of the body (an exception ends the body),
  \<open>read_st\<close> evaluates an expression over the fields of \<open>self\<close>, \<open>call_st\<close> one
  that may raise, \<open>lift_st\<close> a computation that does not look at \<open>self\<close>, and
  \<open>assign_primal_value\<close> is the assignment \<open>self.primal_value = value\<close>, the only
  assignment to a field outside the constructor.  The calls of the methods of
  \<open>Leaf\<close> (\<open>is_symmetric\<close>, \<open>is_nonneg\<close>, \<open>is_nonpos\<close>,
  \<open>_validate_value\<close>), which are missing from the sources, are translated as
  expressions over \<open>self\<close>: they are taken to read the instance and not to assign
  to it.
\<close>

type_synonym ('v, 'a) threaded = "'v variable \<Rightarrow> (error + 'a) \<times> 'v variable"

definition return_st :: "'a \<Rightarrow> ('v, 'a) threaded" where
  "return_st x = (\<lambda>self. (Inr x, self))"

definition bind_st :: "('v, 'a) threaded \<Rightarrow> ('a \<Rightarrow> ('v, 'b) threaded) \<Rightarrow> ('v, 'b) threaded" where
  "bind_st m f =
     (\<lambda>self. case m self of (Inl e, self') \<Rightarrow> (Inl e, self') | (Inr x, self') \<Rightarrow> f x self')"

definition read_st :: "('v variable \<Rightarrow> 'a) \<Rightarrow> ('v, 'a) threaded" where
  "read_st f = (\<lambda>self. (Inr (f self), self))"

definition call_st :: "('v variable \<Rightarrow> error + 'a) \<Rightarrow> ('v, 'a) threaded" where
  "call_st f = (\<lambda>self. (f self, self))"

definition lift_st :: "error + 'a \<Rightarrow> ('v, 'a) threaded" where
  "lift_st r = (\<lambda>self. (r, self))"

definition assign_primal_value :: "'v option \<Rightarrow> ('v, unit) threaded" where
  "assign_primal_value val = (\<lambda>self. (Inr (), self\<lparr>primal_value := val\<rparr>))"

definition name_st :: "('v, string) threaded" where
  "name_st = read_st name_var"

definition save_value_st :: "'v option \<Rightarrow> ('v, unit) threaded" where
  "save_value_st val = assign_primal_value val"

definition value_getter_st :: "('v, 'v option) threaded" where
  "value_getter_st = read_st primal_value"

definition value_setter_st ::
  "('v variable \<Rightarrow> 'v option \<Rightarrow> error + 'v option) \<Rightarrow> 'v option \<Rightarrow> ('v, unit) threaded" where
  "value_setter_st validate_value val =
     bind_st (call_st (\<lambda>self. validate_value self val)) (\<lambda>val'. save_value_st val')"

definition grad_st :: "('v, ('v variable \<times> csc_matrix) list) threaded" where
  "grad_st =
     bind_st (call_st (\<lambda>self. getitem_tuple (shape self) 0)) (\<lambda>d0.
     bind_st (call_st (\<lambda>self. getitem_tuple (shape self) 1)) (\<lambda>d1.
     bind_st (read_st (\<lambda>self. self)) (\<lambda>me.
     return_st [(me, tocsc (sp_eye (d0 * d1)))])))"

definition variables_st :: "('v, 'v variable list) threaded" where
  "variables_st = bind_st (read_st (\<lambda>self. self)) (\<lambda>me. return_st [me])"

definition canonicalize_st :: "('v, lin_op \<times> constraint list) threaded" where
  "canonicalize_st =
     bind_st
       (bind_st (read_st is_symmetric) (\<lambda>sym.
          if sym then
            bind_st (call_st (\<lambda>self. getitem_tuple (shape self) 0)) (\<lambda>n.
            bind_st (read_st id_var) (\<lambda>v.
            bind_st (lift_st (upper_tri_to_full n)) (\<lambda>M.
              let shape' = (n * (n + 1) div 2, 1);
                  obj = create_var [fst shape', snd shape'] v;
                  mat = create_const M [n * n, fst shape'] True;
                  obj = mul_expr mat obj [n * n, 1];
                  obj = reshape obj [n, n]
              in return_st obj)))
          else
            bind_st (read_st shape) (\<lambda>s.
            bind_st (read_st id_var) (\<lambda>v.
            return_st (create_var s v)))))
       (\<lambda>obj.
          bind_st (read_st is_nonneg) (\<lambda>nonneg.
            if nonneg then return_st (obj, [create_geq obj])
            else
              bind_st (read_st is_nonpos) (\<lambda>nonpos.
                if nonpos then return_st (obj, [create_leq obj])
                else
                  bind_st (call_st (\<lambda>self. getitem_dict (attributes self) ''PSD'')) (\<lambda>psd.
                    if psd then return_st (obj, [PSD obj])
                    else
                      bind_st (call_st (\<lambda>self. getitem_dict (attributes self) ''NSD''))
                        (\<lambda>nsd.
                          if nsd then
                            bind_st (lift_st (neg obj)) (\<lambda>nobj. return_st (obj, [PSD nobj]))
                          else return_st (obj, []))))))"

section \<open>The loop of \<open>upper_tri_to_full\<close> in closed form\<close>

lemma tri_loop_pairs:
  "tri_loop n = fold (\<lambda>(i, j). tri_body n i j) (packed_pairs n) ([], [], [], 0)"
proof -
  have inner: "fold (tri_body n i) js st = fold (\<lambda>(i, j). tri_body n i j) (map (\<lambda>j. (i, j)) js) st"
    for i js st
    by (simp add: fold_map comp_def)
  have "fold (\<lambda>i. fold (tri_body n i) [i..<n]) is st
        = fold (\<lambda>(i, j). tri_body n i j) (concat (map (\<lambda>i. map (\<lambda>j. (i, j)) [i..<n]) is)) st"
    for "is" st
    by (induction "is" arbitrary: st) (simp_all add: inner)
  then show ?thesis by (simp add: tri_loop_def packed_pairs_def)
qed

lemma fold_tri_body:
  "length r = length v \<Longrightarrow> length c = length v \<Longrightarrow>
   \<exists>v' r' c'. fold (\<lambda>(i, j). tri_body n i j) ps (v, r, c, k) = (v', r', c', k + length ps)
      \<and> length r' = length v' \<and> length c' = length v'
      \<and> zip r' (zip c' v') = zip r (zip c v) @ tri_triples n k ps"
proof (induction ps arbitrary: v r c k)
  case Nil
  then show ?case by simp
next
  case (Cons p ps)
  obtain i j where p: "p = (i, j)" by (cases p)
  show ?case
  proof (cases "i = j")
    case True
    have step: "tri_body n i j (v, r, c, k) = (v @ [1], r @ [j * n + i], c @ [k], Suc k)"
      using True by (simp add: tri_body_def)
    have "length (r @ [j * n + i]) = length (v @ [1])" "length (c @ [k]) = length (v @ [1])"
      using Cons.prems by simp_all
    from Cons.IH [OF this, of "Suc k"] show ?thesis
      unfolding p using Cons.prems by (simp add: step) (simp add: True)
  next
    case False
    have step: "tri_body n i j (v, r, c, k)
                = (v @ [1] @ [1], r @ [j * n + i] @ [i * n + j], c @ [k] @ [k], Suc k)"
      using False by (simp add: tri_body_def)
    have "length (r @ [j * n + i] @ [i * n + j]) = length (v @ [1] @ [1::real])"
         "length (c @ [k] @ [k]) = length (v @ [1] @ [1::real])"
      using Cons.prems by simp_all
    from Cons.IH [OF this, of "Suc k"] show ?thesis
      unfolding p using Cons.prems by (simp add: step) (simp add: False)
  qed
qed

lemma set_packed_pairs: "set (packed_pairs n) = {(i, j). i \<le> j \<and> j < n}"
  by (fastforce simp: packed_pairs_def)

lemma distinct_packed_pairs: "distinct (packed_pairs n)"
  unfolding packed_pairs_def
  by (rule distinct_concat) (auto simp: distinct_map inj_on_def upt_conv_Cons)

lemma length_packed_pairs_sum: "length (packed_pairs n) = (\<Sum>i<n. n - i)"
  by (simp add: packed_pairs_def length_concat comp_def interv_sum_list_conv_sum_set_nat atLeast0LessThan)

lemma sum_rev_gauss: "2 * (\<Sum>i<n. n - i) = n * (n + 1)" for n :: nat
proof (induction n)
  case 0
  then show ?case by simp
next
  case (Suc n)
  have "(\<Sum>i<Suc n. Suc n - i) = (\<Sum>i<n. Suc (n - i)) + 1"
    by (simp add: Suc_diff_le)
  also have "\<dots> = (\<Sum>i<n. (n - i) + 1) + 1"
    by simp
  also have "\<dots> = (\<Sum>i<n. n - i) + n + 1"
    by (simp only: sum.distrib) simp
  finally show ?case using Suc.IH by simp
qed

lemma length_packed_pairs: "length (packed_pairs n) = n * (n + 1) div 2"
  using sum_rev_gauss [of n] by (simp add: length_packed_pairs_sum)

lemma packed_pairs_nth:
  assumes "c < length (packed_pairs n)"
  shows "fst (packed_pairs n ! c) \<le> snd (packed_pairs n ! c) \<and> snd (packed_pairs n ! c) < n"
proof -
  have "packed_pairs n ! c \<in> set (packed_pairs n)" using assms by simp
  then show ?thesis by (auto simp: set_packed_pairs)
qed

lemma tri_triples_cols:
  "(r, c, v) \<in> set (tri_triples n k ps) \<Longrightarrow> k \<le> c \<and> c < k + length ps"
proof (induction ps arbitrary: k)
  case Nil
  then show ?case by simp
next
  case (Cons p ps)
  obtain i j where p: "p = (i, j)" by (cases p)
  from Cons.prems have "c = k \<or> (r, c, v) \<in> set (tri_triples n (Suc k) ps)"
    by (auto simp: p split: if_splits)
  then show ?case using Cons.IH [of "Suc k"] by auto
qed

lemma tri_triples_rows:
  "(r, c, v) \<in> set (tri_triples n k ps) \<Longrightarrow> \<forall>(i, j) \<in> set ps. i < n \<and> j < n \<Longrightarrow> r < n * n"
proof (induction ps arbitrary: k)
  case Nil
  then show ?case by simp
next
  case (Cons p ps)
  obtain i j where p: "p = (i, j)" by (cases p)
  have ij: "i < n" "j < n" using Cons.prems(2) by (simp_all add: p)
  have bound: "a * n + b < n * n" if "a < n" "b < n" for a b
  proof -
    have "a * n + b < a * n + n" using that by simp
    also have "\<dots> = Suc a * n" by simp
    also have "\<dots> \<le> n * n" using that by (simp only: mult_le_mono1 Suc_leI)
    finally show ?thesis .
  qed
  from Cons.prems(1) have "r = j * n + i \<or> r = i * n + j \<or> (r, c, v) \<in> set (tri_triples n (Suc k) ps)"
    by (auto simp: p split: if_splits)
  then show ?case using Cons.IH [of "Suc k"] Cons.prems(2) bound ij by auto
qed

lemma tri_triples_filter_empty:
  "c < k \<Longrightarrow> filter (\<lambda>(r, c', v). c' = c) (tri_triples n k ps) = []"
  by (auto simp: filter_empty_conv dest: tri_triples_cols)

lemma tri_triples_col:
  "k \<le> c \<Longrightarrow> c < k + length ps \<Longrightarrow>
   map (\<lambda>(r, c', v). (r, v)) (filter (\<lambda>(r, c', v). c' = c) (tri_triples n k ps))
     = raw_col n (ps ! (c - k))"
proof (induction ps arbitrary: k)
  case Nil
  then show ?case by simp
next
  case (Cons p ps)
  obtain i j where p: "p = (i, j)" by (cases p)
  show ?case
  proof (cases "c = k")
    case True
    then show ?thesis
      by (simp add: p raw_col_def tri_triples_filter_empty)
  next
    case False
    then have "Suc k \<le> c" "c < Suc k + length ps" using Cons.prems by simp_all
    from Cons.IH [OF this] False Cons.prems show ?thesis
      by (simp add: p Suc_diff_le)
  qed
qed

lemma csc_column_raw_col:
  assumes "i \<le> j" "j < n"
  shows "csc_column (raw_col n (i, j)) = col_of n (i, j)"
proof (cases "i = j")
  case True
  then show ?thesis
    by (simp add: csc_column_def raw_col_def col_of_def sum_at_row_def)
next
  case False
  then have "i < j" using assms by simp
  have "i * n + j < j * n + i"
  proof -
    have "Suc i \<le> j" using \<open>i < j\<close> by simp
    then have "Suc i * n \<le> j * n" by (rule mult_le_mono1)
    then show ?thesis using assms by simp
  qed
  then show ?thesis using False
    by (simp add: csc_column_def raw_col_def col_of_def sum_at_row_def)
qed

lemma zip3_fst: "length r = length v \<Longrightarrow> length c = length v \<Longrightarrow> map fst (zip r (zip c v)) = r"
  by (simp add: map_fst_zip)

lemma zip3_snd: "length r = length v \<Longrightarrow> length c = length v \<Longrightarrow> map (fst \<circ> snd) (zip r (zip c v)) = c"
proof -
  assume a: "length r = length v" "length c = length v"
  have "map (fst \<circ> snd) (zip r (zip c v)) = map fst (map snd (zip r (zip c v)))" by simp
  also have "\<dots> = map fst (zip c v)" using a by (simp only: map_snd_zip length_zip min.idem)
  also have "\<dots> = c" using a by (simp add: map_fst_zip)
  finally show ?thesis .
qed

lemma upper_tri_to_full_eq:
  "upper_tri_to_full n
   = Inr \<lparr>csc_shape = (n * n, n * (n + 1) div 2), csc_cols = map (col_of n) (packed_pairs n)\<rparr>"
proof -
  let ?ps = "packed_pairs n"
  let ?m = "n * (n + 1) div 2"
  obtain v r c where loop: "tri_loop n = (v, r, c, length ?ps)"
    and len: "length r = length v" "length c = length v"
    and trip: "zip r (zip c v) = tri_triples n 0 ?ps"
    using fold_tri_body [of "[]" "[]" "[]" n ?ps 0] by (auto simp: tri_loop_pairs)
  have m: "length ?ps = ?m" by (rule length_packed_pairs)
  have ps_bound: "\<forall>(i, j) \<in> set ?ps. i < n \<and> j < n"
    by (auto simp: set_packed_pairs)
  have rows: "x < n * n" if "x \<in> set r" for x
  proof -
    from that have "x \<in> set (map fst (zip r (zip c v)))" using len by (simp only: zip3_fst)
    then obtain y w where "(x, y, w) \<in> set (tri_triples n 0 ?ps)" by (auto simp: trip)
    then show ?thesis using ps_bound by (rule tri_triples_rows)
  qed
  have cols: "y < ?m" if "y \<in> set c" for y
  proof -
    from that have "y \<in> set (map (fst \<circ> snd) (zip r (zip c v)))" using len by (simp only: zip3_snd)
    then obtain x w where "(x, y, w) \<in> set (tri_triples n 0 ?ps)" by (auto simp: trip)
    then show ?thesis using tri_triples_cols [of x y w n 0 ?ps] m by simp
  qed
  let ?A = "\<lparr>coo_data = v, coo_row = r, coo_col = c, coo_shape = (n * n, ?m)\<rparr>"
  have coo: "sp_coo_matrix v r c (n * n, ?m) = Inr ?A"
  proof -
    have "\<not> list_ex (\<lambda>x. n * n \<le> x) r" using rows by (fastforce simp: list_ex_iff)
    moreover have "\<not> list_ex (\<lambda>y. ?m \<le> y) c" using cols by (fastforce simp: list_ex_iff)
    ultimately show ?thesis using len by (simp add: sp_coo_matrix_def)
  qed
  have col: "csc_column (coo_col_entries ?A k) = col_of n (?ps ! k)" if "k < ?m" for k
  proof -
    have k: "k < length ?ps" using that m by simp
    obtain i j where ij: "?ps ! k = (i, j)" by (cases "?ps ! k")
    have "i \<le> j" "j < n" using packed_pairs_nth [OF k] ij by simp_all
    then have "csc_column (raw_col n (?ps ! k)) = col_of n (?ps ! k)"
      unfolding ij by (rule csc_column_raw_col)
    moreover have "coo_col_entries ?A k = raw_col n (?ps ! k)"
      using tri_triples_col [of 0 k ?ps n] k by (simp add: coo_col_entries_def trip)
    ultimately show ?thesis by simp
  qed
  have "map (\<lambda>k. csc_column (coo_col_entries ?A k)) [0..<?m] = map (col_of n) ?ps"
    using col m by (auto simp: list_eq_iff_nth_eq)
  then have "tocsc ?A = \<lparr>csc_shape = (n * n, ?m), csc_cols = map (col_of n) ?ps\<rparr>"
    by (simp add: tocsc_def)
  then show ?thesis
    unfolding upper_tri_to_full_def Let_def loop
    by (simp only: prod.case coo sum.case)
qed

section \<open>Shape and nonzeros of the expansion map\<close>

lemma col_of_nnz:
  "length (filter (\<lambda>(r, v). v \<noteq> 0) (col_of n (i, j))) = (if i = j then 1 else 2)"
  by (simp add: col_of_def)

lemma col_of_values: "(r, v) \<in> set (col_of n q) \<Longrightarrow> v = 1"
  by (cases q) (auto simp: col_of_def split: if_splits)

lemma packed_pairs_0: "packed_pairs 0 = []"
  by (simp add: packed_pairs_def)

lemma packed_pairs_1: "packed_pairs (Suc 0) = [(0, 0)]"
  by (simp add: packed_pairs_def)

lemma tocsc_eye_1: "tocsc (sp_eye (Suc 0)) = \<lparr>csc_shape = (Suc 0, Suc 0), csc_cols = [[(0, 1)]]\<rparr>"
  by (simp add: tocsc_def sp_eye_def coo_col_entries_def csc_column_def sum_at_row_def)

text \<open>
  Claim C8.  For every \<open>n\<close>, \<open>upper_tri_to_full n\<close> returns a matrix of shape
  \<open>(n * n, n * (n + 1) div 2)\<close>.  The column of a packed index whose pair is diagonal
  stores exactly one nonzero, every other column exactly two, and every stored value is
  \<open>1\<close>.  For \<open>n = 0\<close> the matrix is the empty matrix of shape \<open>(0, 0)\<close>, for
  \<open>n = 1\<close> it is the identity of size one.
\<close>

theorem upper_tri_to_full_shape_nnz:
  "\<exists>M. upper_tri_to_full n = Inr M
     \<and> csc_shape M = (n * n, n * (n + 1) div 2)
     \<and> length (csc_cols M) = n * (n + 1) div 2
     \<and> (\<forall>c < n * (n + 1) div 2.
          col_nnz M c = (case packed_pairs n ! c of (i, j) \<Rightarrow> if i = j then 1 else 2)
          \<and> (\<forall>(r, v) \<in> set (csc_cols M ! c). v = 1))
     \<and> (n = 0 \<longrightarrow> M = \<lparr>csc_shape = (0, 0), csc_cols = []\<rparr>)
     \<and> (n = 1 \<longrightarrow> M = tocsc (sp_eye 1))"
proof -
  let ?m = "n * (n + 1) div 2"
  let ?M = "\<lparr>csc_shape = (n * n, ?m), csc_cols = map (col_of n) (packed_pairs n)\<rparr>"
  have len: "length (packed_pairs n) = ?m" by (rule length_packed_pairs)
  have cols: "col_nnz ?M c = (case packed_pairs n ! c of (i, j) \<Rightarrow> if i = j then 1 else 2)
     \<and> (\<forall>(r, v) \<in> set (csc_cols ?M ! c). v = 1)" if "c < ?m" for c
  proof -
    obtain i j where ij: "packed_pairs n ! c = (i, j)" by (cases "packed_pairs n ! c")
    have nth: "csc_cols ?M ! c = col_of n (i, j)" using that len ij by simp
    have "col_nnz ?M c = (if i = j then 1 else 2)"
      unfolding col_nnz_def nth by (rule col_of_nnz)
    moreover have "\<forall>(r, v) \<in> set (csc_cols ?M ! c). v = 1"
      unfolding nth using col_of_values by blast
    ultimately show ?thesis by (simp add: ij)
  qed
  have zero: "n = 0 \<longrightarrow> ?M = \<lparr>csc_shape = (0, 0), csc_cols = []\<rparr>"
    by (simp add: packed_pairs_0)
  have one: "n = 1 \<longrightarrow> ?M = tocsc (sp_eye 1)"
    by (simp add: packed_pairs_1 tocsc_eye_1 col_of_def)
  have "upper_tri_to_full n = Inr ?M" by (rule upper_tri_to_full_eq)
  moreover have "csc_shape ?M = (n * n, ?m)" by simp
  moreover have "length (csc_cols ?M) = ?m" using len by simp
  ultimately show ?thesis using cols zero one by blast
qed

theorem upper_tri_to_full_shape_nnz_witness:
  "\<exists>M. upper_tri_to_full 3 = Inr M \<and> csc_shape M = (9, 6) \<and> length (csc_cols M) = 6
     \<and> map (col_nnz M) [0, 1, 2, 3, 4, 5] = [1, 2, 2, 1, 2, 1]
     \<and> (\<forall>(r, v) \<in> set (csc_cols M ! 1). v = 1)"
proof -
  have pp: "packed_pairs 3 = [(0, 0), (0, 1), (0, 2), (1, 1), (1, 2), (2, 2)]"
    by code_simp
  obtain M where M: "upper_tri_to_full 3 = Inr M" "csc_shape M = (3 * 3, 3 * (3 + 1) div 2)"
      "length (csc_cols M) = 3 * (3 + 1) div 2"
    and cols: "\<forall>c < 3 * (3 + 1) div 2.
          col_nnz M c = (case packed_pairs 3 ! c of (i, j) \<Rightarrow> if i = j then 1 else 2)
          \<and> (\<forall>(r, v) \<in> set (csc_cols M ! c). v = 1)"
    using upper_tri_to_full_shape_nnz [of 3] by blast
  have six: "3 * (3 + 1) div 2 = (6::nat)" by simp
  have col: "col_nnz M c = (case packed_pairs 3 ! c of (i, j) \<Rightarrow> if i = j then 1 else 2)
          \<and> (\<forall>(r, v) \<in> set (csc_cols M ! c). v = 1)" if "c < 6" for c
    using cols that unfolding six by blast
  have "col_nnz M 0 = 1" "col_nnz M 1 = 2" "col_nnz M 2 = 2" "col_nnz M 3 = 1"
       "col_nnz M 4 = 2" "col_nnz M 5 = 1" "\<forall>(r, v) \<in> set (csc_cols M ! 1). v = 1"
    using col [of 0] col [of 1] col [of 2] col [of 3] col [of 4] col [of 5]
    by (simp_all add: pp)
  then show ?thesis using M by simp
qed

section \<open>The product of the expansion map with a packed vector\<close>

lemma takeWhile_index:
  assumes "distinct xs" "q \<in> set xs"
  defines "k \<equiv> length (takeWhile (\<lambda>x. x \<noteq> q) xs)"
  shows "k < length xs" and "xs ! k = q" and "c < length xs \<Longrightarrow> xs ! c = q \<longleftrightarrow> c = k"
proof -
  have "dropWhile (\<lambda>x. x \<noteq> q) xs \<noteq> []"
    using assms(2) by (auto simp: dropWhile_eq_Nil_conv)
  moreover have "length (takeWhile (\<lambda>x. x \<noteq> q) xs) + length (dropWhile (\<lambda>x. x \<noteq> q) xs)
                 = length xs"
    by (metis length_append takeWhile_dropWhile_id)
  ultimately show k: "k < length xs"
    unfolding k_def by (cases "dropWhile (\<lambda>x. x \<noteq> q) xs") simp_all
  show q: "xs ! k = q"
    using nth_length_takeWhile [of "\<lambda>x. x \<noteq> q" xs] k unfolding k_def by simp
  show "xs ! c = q \<longleftrightarrow> c = k" if "c < length xs"
    using that k q assms(1) by (auto simp: nth_eq_iff_index_eq)
qed

lemma div_mod_decomp:
  fixes n :: nat
  assumes "j < n"
  shows "r = i * n + j \<longleftrightarrow> r div n = i \<and> r mod n = j"
  using assms by (auto simp: div_mult_mod_eq)

lemma offdiag_rows_less:
  fixes n :: nat
  assumes "i < j" "j < n"
  shows "i * n + j < j * n + i"
proof -
  have "Suc i \<le> j" using assms(1) by simp
  then have "Suc i * n \<le> j * n" by (rule mult_le_mono1)
  then show ?thesis using assms by simp
qed

lemma sum_at_row_col_of:
  assumes "i \<le> j" "j < n"
  shows "sum_at_row (col_of n (i, j)) r = (if r = i * n + j \<or> r = j * n + i then 1 else 0)"
proof (cases "i = j")
  case True
  then show ?thesis by (simp add: sum_at_row_def col_of_def)
next
  case False
  then have "i * n + j < j * n + i" using assms by (intro offdiag_rows_less) simp_all
  then show ?thesis using False by (auto simp: sum_at_row_def col_of_def)
qed

lemma entry_col_of:
  assumes "i \<le> j" "j < n" "r < n * n"
  shows "sum_at_row (col_of n (i, j)) r
         = (if (i, j) = (min (r mod n) (r div n), max (r mod n) (r div n)) then 1 else 0)"
proof -
  have i: "i < n" using assms by simp
  have "(r = i * n + j \<or> r = j * n + i)
        \<longleftrightarrow> (i, j) = (min (r mod n) (r div n), max (r mod n) (r div n))"
    unfolding div_mod_decomp [OF assms(2)] div_mod_decomp [OF i]
    using assms(1) by (auto simp: min_def max_def)
  then show ?thesis by (simp only: sum_at_row_col_of [OF assms(1,2)])
qed

lemma sum_list_delta:
  fixes f :: "nat \<Rightarrow> real"
  assumes "k < m"
  shows "sum_list (map (\<lambda>c. (if c = k then 1 else 0) * f c) [0..<m]) = f k"
proof -
  have "(\<lambda>c. (if c = k then 1 else 0) * f c) = (\<lambda>c. if k = c then f c else 0)"
    by auto
  then have "sum_list (map (\<lambda>c. (if c = k then 1 else 0) * f c) [0..<m])
        = (\<Sum>c \<in> {0..<m}. if k = c then f c else 0)"
    by (simp only: interv_sum_list_conv_sum_set_nat set_upt)
  also have "\<dots> = f k" using assms by (simp add: sum.delta)
  finally show ?thesis .
qed

lemma row_product:
  assumes "r < n * n"
  shows "sum_list (map (\<lambda>c. sum_at_row (map (col_of n) (packed_pairs n) ! c) r * p ! c)
                    [0..<length (packed_pairs n)])
         = sym_full n p (r mod n) (r div n)"
proof -
  let ?ps = "packed_pairs n"
  let ?a = "min (r mod n) (r div n)" and ?b = "max (r mod n) (r div n)"
  let ?k = "packed_index n ?a ?b"
  have n: "0 < n" using assms by (cases n) simp_all
  have "r div n < n" using assms by (simp add: less_mult_imp_div_less)
  moreover have "r mod n < n" using n by simp
  ultimately have mem: "(?a, ?b) \<in> set ?ps"
    by (simp add: set_packed_pairs)
  note idx = takeWhile_index [OF distinct_packed_pairs mem, folded packed_index_def]
  have "sum_at_row (map (col_of n) ?ps ! c) r * p ! c = (if c = ?k then 1 else 0) * p ! c"
    if "c \<in> set [0..<length ?ps]" for c
  proof -
    have c: "c < length ?ps" using that by simp
    obtain i j where ij: "?ps ! c = (i, j)" by (cases "?ps ! c")
    have "i \<le> j" "j < n" using packed_pairs_nth [OF c] ij by simp_all
    then have "sum_at_row (col_of n (i, j)) r = (if (i, j) = (?a, ?b) then 1 else 0)"
      using assms by (rule entry_col_of)
    moreover have "(i, j) = (?a, ?b) \<longleftrightarrow> c = ?k"
      using idx(3) [OF c] ij by simp
    ultimately show ?thesis using c ij by simp
  qed
  then have "sum_list (map (\<lambda>c. sum_at_row (map (col_of n) ?ps ! c) r * p ! c) [0..<length ?ps])
        = sum_list (map (\<lambda>c. (if c = ?k then 1 else 0) * p ! c) [0..<length ?ps])"
    by (intro arg_cong [where f = sum_list] map_cong refl)
  also have "\<dots> = p ! ?k" using idx(1) by (rule sum_list_delta)
  finally show ?thesis by (simp add: sym_full_def)
qed

lemma concat_uniform_nth:
  assumes "\<And>j. j < m \<Longrightarrow> length (f j) = k" "r < m * k"
  shows "concat (map f [0..<m]) ! r = f (r div k) ! (r mod k)"
    and "length (concat (map f [0..<m])) = m * k"
proof -
  have "length (concat (map f [0..<m])) = m * k
        \<and> (\<forall>r < m * k. concat (map f [0..<m]) ! r = f (r div k) ! (r mod k))"
    using assms(1)
  proof (induction m)
    case 0
    then show ?case by simp
  next
    case (Suc m)
    then have IH: "length (concat (map f [0..<m])) = m * k"
      "\<And>r. r < m * k \<Longrightarrow> concat (map f [0..<m]) ! r = f (r div k) ! (r mod k)"
      by simp_all
    have fm: "length (f m) = k" using Suc.prems by simp
    have "concat (map f [0..<Suc m]) ! r = f (r div k) ! (r mod k)" if "r < Suc m * k" for r
    proof (cases "r < m * k")
      case True
      then show ?thesis by (simp add: nth_append IH)
    next
      case False
      then have ge: "m * k \<le> r" by simp
      have "r - m * k < k" using that ge by simp
      moreover have "r = m * k + (r - m * k)" using ge by simp
      ultimately have "r div k = m" "r mod k = r - m * k"
        by (metis div_mult_self3 div_less add.right_neutral add.commute less_nat_zero_code
              mult_is_0 neq0_conv mod_mult_self3 mod_less)+
      then show ?thesis using False by (simp add: nth_append IH)
    qed
    then show ?case by (simp add: IH fm)
  qed
  then show "concat (map f [0..<m]) ! r = f (r div k) ! (r mod k)"
    and "length (concat (map f [0..<m])) = m * k"
    using assms(2) by simp_all
qed

lemma sorted_rows_concat:
  "sorted_wrt (<) is \<Longrightarrow>
   sorted_wrt pair_less (concat (map (\<lambda>i. map (\<lambda>j. (i, j)) [i..<n]) is))"
proof (induction "is")
  case Nil
  then show ?case by simp
next
  case (Cons i "is")
  have "sorted_wrt pair_less (map (\<lambda>j. (i, j)) [i..<n])"
    by (simp add: sorted_wrt_map pair_less_def)
  moreover have "sorted_wrt pair_less (concat (map (\<lambda>i. map (\<lambda>j. (i, j)) [i..<n]) is))"
    using Cons by simp
  moreover have "pair_less a b"
    if "a \<in> set (map (\<lambda>j. (i, j)) [i..<n])"
       "b \<in> set (concat (map (\<lambda>i. map (\<lambda>j. (i, j)) [i..<n]) is))" for a b
    using that Cons.prems by (auto simp: pair_less_def)
  ultimately show ?case by (simp add: sorted_wrt_append)
qed

lemma sorted_packed_pairs: "sorted_wrt pair_less (packed_pairs n)"
  unfolding packed_pairs_def by (rule sorted_rows_concat) simp

lemma packed_index_props:
  assumes "i \<le> j" "j < n"
  shows "packed_index n i j < length (packed_pairs n)"
    and "packed_pairs n ! packed_index n i j = (i, j)"
    and "c < length (packed_pairs n) \<Longrightarrow> packed_pairs n ! c = (i, j) \<longleftrightarrow> c = packed_index n i j"
proof -
  have mem: "(i, j) \<in> set (packed_pairs n)" using assms by (simp add: set_packed_pairs)
  note idx = takeWhile_index [OF distinct_packed_pairs mem, folded packed_index_def]
  show "packed_index n i j < length (packed_pairs n)" by (rule idx(1))
  show "packed_pairs n ! packed_index n i j = (i, j)" by (rule idx(2))
  show "packed_pairs n ! c = (i, j) \<longleftrightarrow> c = packed_index n i j" if "c < length (packed_pairs n)"
    using that by (rule idx(3))
qed

lemma packed_index_diag_mono:
  assumes "i < i'" "i' < n"
  shows "packed_index n i i < packed_index n i' i'"
proof (rule ccontr)
  let ?ps = "packed_pairs n"
  let ?d = "packed_index n i i" and ?d' = "packed_index n i' i'"
  assume "\<not> ?d < ?d'"
  then have le: "?d' \<le> ?d" by simp
  have i: "i < n" using assms by simp
  have d: "?d < length ?ps" "?ps ! ?d = (i, i)"
    using packed_index_props [of i i n] i by simp_all
  have d': "?d' < length ?ps" "?ps ! ?d' = (i', i')"
    using packed_index_props [of i' i' n] assms by simp_all
  show False
  proof (cases "?d' = ?d")
    case True
    then show ?thesis using d d' assms by simp
  next
    case False
    then have "?d' < ?d" using le by simp
    then have "pair_less (?ps ! ?d') (?ps ! ?d)"
      using sorted_packed_pairs [of n] d(1) by (simp add: sorted_wrt_iff_nth_less)
    then show ?thesis using assms by (simp add: d d' pair_less_def)
  qed
qed

lemma diag_positions:
  "filter (\<lambda>c. fst (packed_pairs n ! c) = snd (packed_pairs n ! c)) [0..<length (packed_pairs n)]
   = map (\<lambda>i. packed_index n i i) [0..<n]"
proof (rule sorted_distinct_set_unique)
  let ?ps = "packed_pairs n"
  let ?L = "filter (\<lambda>c. fst (?ps ! c) = snd (?ps ! c)) [0..<length ?ps]"
  let ?R = "map (\<lambda>i. packed_index n i i) [0..<n]"
  show "sorted ?L" by (simp add: sorted_filter [where f = "\<lambda>x. x", simplified])
  show "distinct ?L" by simp
  have "?R ! a \<le> ?R ! b" if "a < b" "b < length ?R" for a b
  proof -
    have "a < n" "b < n" using that by simp_all
    then show ?thesis using packed_index_diag_mono [of a b n] that(1) by simp
  qed
  then show "sorted ?R" unfolding sorted_iff_nth_mono_less by blast
  have "inj_on (\<lambda>i. packed_index n i i) {0..<n}"
  proof (rule inj_onI)
    fix a b assume "a \<in> {0..<n}" "b \<in> {0..<n}" "packed_index n a a = packed_index n b b"
    then show "a = b"
      using packed_index_diag_mono [of a b n] packed_index_diag_mono [of b a n]
      by (cases a b rule: linorder_cases) simp_all
  qed
  then show "distinct ?R" by (simp add: distinct_map)
  show "set ?L = set ?R"
  proof (intro set_eqI iffI)
    fix c assume "c \<in> set ?L"
    then have c: "c < length ?ps" and diag: "fst (?ps ! c) = snd (?ps ! c)" by simp_all
    obtain i where i: "?ps ! c = (i, i)" using diag by (cases "?ps ! c") simp
    have "i < n" using packed_pairs_nth [OF c] i by simp
    moreover have "c = packed_index n i i"
      using packed_index_props(3) [of i i n c] \<open>i < n\<close> c i by simp
    ultimately show "c \<in> set ?R" by auto
  next
    fix c assume "c \<in> set ?R"
    then obtain i where "i < n" "c = packed_index n i i" by auto
    then show "c \<in> set ?L"
      using packed_index_props(1,2) [of i i n] by simp
  qed
qed

lemma packed_diag_eq:
  assumes "length p = length (packed_pairs n)"
  shows "packed_diag n p = map (\<lambda>i. p ! packed_index n i i) [0..<n]"
proof -
  let ?ps = "packed_pairs n"
  let ?m = "length ?ps"
  have "zip ?ps p = zip (map (\<lambda>c. ?ps ! c) [0..<?m]) (map (\<lambda>c. p ! c) [0..<?m])"
    using assms map_nth [of ?ps] map_nth [of p] by simp
  also have "\<dots> = map (\<lambda>c. (?ps ! c, p ! c)) [0..<?m]"
    by (simp add: zip_map_map zip_same_conv_map)
  finally have "packed_diag n p
     = map (\<lambda>c. p ! c) (filter (\<lambda>c. fst (?ps ! c) = snd (?ps ! c)) [0..<?m])"
    by (simp add: packed_diag_def filter_map comp_def case_prod_beta)
  then show ?thesis by (simp add: diag_positions comp_def)
qed

lemma flatten_F_nth:
  assumes "r < n * n"
  shows "flatten_F n S ! r = S (r mod n) (r div n)"
proof -
  have n: "r mod n < n" using assms by (cases n) simp_all
  have "flatten_F n S ! r = map (\<lambda>i. S i (r div n)) [0..<n] ! (r mod n)"
    unfolding flatten_F_def using assms by (intro concat_uniform_nth(1)) simp_all
  then show ?thesis using n by simp
qed

lemma length_flatten_F: "length (flatten_F n S) = n * n"
proof (cases n)
  case 0
  then show ?thesis by (simp add: flatten_F_def)
next
  case (Suc k)
  have "0 < n * n" using Suc by simp
  then show ?thesis
    unfolding flatten_F_def by (intro concat_uniform_nth(2) [where r = 0]) simp_all
qed

lemma matvec_expansion:
  assumes "length p = n * (n + 1) div 2"
  shows "matvec \<lparr>csc_shape = (n * n, n * (n + 1) div 2),
                 csc_cols = map (col_of n) (packed_pairs n)\<rparr> p
         = Inr (flatten_F n (sym_full n p))"
proof -
  let ?m = "n * (n + 1) div 2"
  let ?M = "\<lparr>csc_shape = (n * n, ?m), csc_cols = map (col_of n) (packed_pairs n)\<rparr>"
  have len: "length (packed_pairs n) = ?m" by (rule length_packed_pairs)
  have "map (\<lambda>r. sum_list (map (\<lambda>c. csc_entry ?M r c * p ! c) [0..<?m])) [0..<n * n]
        = flatten_F n (sym_full n p)"
  proof (rule nth_equalityI)
    show "length (map (\<lambda>r. sum_list (map (\<lambda>c. csc_entry ?M r c * p ! c) [0..<?m])) [0..<n * n])
          = length (flatten_F n (sym_full n p))"
      by (simp add: length_flatten_F)
  next
    fix r
    assume "r < length (map (\<lambda>r. sum_list (map (\<lambda>c. csc_entry ?M r c * p ! c) [0..<?m])) [0..<n * n])"
    then have r: "r < n * n" by simp
    have "sum_list (map (\<lambda>c. csc_entry ?M r c * p ! c) [0..<?m])
          = sym_full n p (r mod n) (r div n)"
      using row_product [OF r, of p] by (simp add: csc_entry_def len)
    then show "map (\<lambda>r. sum_list (map (\<lambda>c. csc_entry ?M r c * p ! c) [0..<?m])) [0..<n * n] ! r
               = flatten_F n (sym_full n p) ! r"
      using r by (simp add: flatten_F_nth)
  qed
  then show ?thesis using assms by (simp add: matvec_def)
qed

text \<open>
  Claim C1.  For a packed vector \<open>p\<close> of length \<open>n * (n + 1) div 2\<close>, the product of
  the matrix built by \<open>upper_tri_to_full n\<close> with \<open>p\<close> is the column-major flattening
  of the symmetric matrix \<open>sym_full n p\<close>, whose entries \<open>(i, j)\<close> and \<open>(j, i)\<close>
  are both the entry of \<open>p\<close> at the position of the pair \<open>(i, j)\<close> in the
  enumeration "for row \<open>i\<close>, for column \<open>j\<close> from \<open>i\<close>".
\<close>

theorem upper_tri_to_full_expands:
  assumes "length p = n * (n + 1) div 2"
  shows "\<exists>M. upper_tri_to_full n = Inr M
           \<and> matvec M p = Inr (flatten_F n (sym_full n p))
           \<and> (\<forall>i j. i \<le> j \<and> j < n \<longrightarrow>
                 packed_pairs n ! packed_index n i j = (i, j)
                 \<and> sym_full n p i j = p ! packed_index n i j
                 \<and> sym_full n p j i = p ! packed_index n i j)"
proof -
  have "packed_pairs n ! packed_index n i j = (i, j)
        \<and> sym_full n p i j = p ! packed_index n i j
        \<and> sym_full n p j i = p ! packed_index n i j" if "i \<le> j \<and> j < n" for i j
    using that packed_index_props(2) [of i j n]
    by (simp add: sym_full_def min_absorb1 min_absorb2 max_absorb1 max_absorb2)
  then show ?thesis
    using upper_tri_to_full_eq [of n] matvec_expansion [OF assms] by blast
qed

theorem upper_tri_to_full_expands_witness:
  "length [1, 2, 3, 4, 5, 6 :: real] = 3 * (3 + 1) div 2
   \<and> (\<exists>M. upper_tri_to_full 3 = Inr M
          \<and> matvec M [1, 2, 3, 4, 5, 6] = Inr [1, 2, 3, 2, 4, 5, 3, 5, 6]
          \<and> packed_pairs 3 ! packed_index 3 0 1 = (0, 1))"
proof -
  have len: "length [1, 2, 3, 4, 5, 6 :: real] = 3 * (3 + 1) div 2" by simp
  have flat: "flatten_F 3 (sym_full 3 [1, 2, 3, 4, 5, 6]) = [1, 2, 3, 2, 4, 5, 3, 5, 6]"
    by code_simp
  show ?thesis
    using upper_tri_to_full_expands [OF len] len unfolding flat by fastforce
qed

text \<open>
  Claim C4.  For a packed vector \<open>p\<close> of length \<open>n * (n + 1) div 2\<close>, reshaping the
  product of the expansion map with \<open>p\<close> to \<open>(n, n)\<close> in column-major order gives a
  symmetric matrix; its entry \<open>(i, i)\<close> is the entry of \<open>p\<close> at the position of the
  pair \<open>(i, i)\<close>, and its diagonal is the list of the diagonal entries of \<open>p\<close> in the
  order of the enumeration.
\<close>

theorem expansion_reshape_symmetric:
  assumes "length p = n * (n + 1) div 2"
  shows "\<exists>M y R. upper_tri_to_full n = Inr M \<and> matvec M p = Inr y
           \<and> reshape_F y (n, n) = Inr R
           \<and> (\<forall>i < n. \<forall>j < n. R ! i ! j = R ! j ! i)
           \<and> (\<forall>i < n. R ! i ! i = p ! packed_index n i i)
           \<and> map (\<lambda>i. R ! i ! i) [0..<n] = packed_diag n p"
proof -
  let ?y = "flatten_F n (sym_full n p)"
  let ?R = "map (\<lambda>i. map (\<lambda>j. ?y ! (j * n + i)) [0..<n]) [0..<n]"
  have R: "reshape_F ?y (n, n) = Inr ?R"
    by (simp add: reshape_F_def length_flatten_F)
  have entry: "?R ! i ! j = sym_full n p i j" if "i < n" "j < n" for i j
  proof -
    have "j * n + i < n * n"
    proof -
      have "j * n + i < Suc j * n" using that by simp
      also have "\<dots> \<le> n * n" using that by (simp only: mult_le_mono1 Suc_leI)
      finally show ?thesis .
    qed
    then have "?y ! (j * n + i) = sym_full n p ((j * n + i) mod n) ((j * n + i) div n)"
      by (rule flatten_F_nth)
    then show ?thesis using that by simp
  qed
  have sym: "\<forall>i < n. \<forall>j < n. ?R ! i ! j = ?R ! j ! i"
  proof (intro allI impI)
    fix i j assume "i < n" "j < n"
    then have "?R ! i ! j = sym_full n p i j" "?R ! j ! i = sym_full n p j i"
      using entry by blast+
    then show "?R ! i ! j = ?R ! j ! i"
      by (simp only: sym_full_def min.commute max.commute)
  qed
  have diag: "\<forall>i < n. ?R ! i ! i = p ! packed_index n i i"
  proof (intro allI impI)
    fix i assume "i < n"
    then have "?R ! i ! i = sym_full n p i i" using entry by blast
    then show "?R ! i ! i = p ! packed_index n i i" by (simp only: sym_full_def min.idem max.idem)
  qed
  have "map (\<lambda>i. ?R ! i ! i) [0..<n] = map (\<lambda>i. p ! packed_index n i i) [0..<n]"
    using diag by (intro map_cong refl) simp
  also have "\<dots> = packed_diag n p"
    using assms by (simp add: packed_diag_eq length_packed_pairs)
  finally have list: "map (\<lambda>i. ?R ! i ! i) [0..<n] = packed_diag n p" .
  show ?thesis
    using upper_tri_to_full_eq [of n] matvec_expansion [OF assms] R sym diag list by blast
qed

theorem expansion_reshape_symmetric_witness:
  "length [1, 2, 3, 4, 5, 6 :: real] = 3 * (3 + 1) div 2
   \<and> (\<exists>M y R. upper_tri_to_full 3 = Inr M \<and> matvec M [1, 2, 3, 4, 5, 6] = Inr y
          \<and> reshape_F y (3, 3) = Inr R
          \<and> R ! 0 ! 2 = R ! 2 ! 0
          \<and> map (\<lambda>i. R ! i ! i) [0..<3] = [1, 4, 6])"
proof -
  have len: "length [1, 2, 3, 4, 5, 6 :: real] = 3 * (3 + 1) div 2" by simp
  have diag: "packed_diag 3 [1, 2, 3, 4, 5, 6] = [1, 4, 6]"
    by code_simp
  obtain M y R where *: "upper_tri_to_full 3 = Inr M" "matvec M [1, 2, 3, 4, 5, 6] = Inr y"
    "reshape_F y (3, 3) = Inr R" "\<forall>i < 3. \<forall>j < 3. R ! i ! j = R ! j ! i"
    "map (\<lambda>i. R ! i ! i) [0..<3] = packed_diag 3 [1, 2, 3, 4, 5, 6]"
    using expansion_reshape_symmetric [OF len] by blast
  have s: "R ! 0 ! 2 = R ! 2 ! 0" using *(4) by simp
  have d: "map (\<lambda>i. R ! i ! i) [0..<3] = [1, 4, 6]" using *(5) by (simp only: diag)
  show ?thesis
    by (intro conjI exI [of _ M] exI [of _ y] exI [of _ R]) (rule len *(1) *(2) *(3) s d)+
qed

section \<open>The methods of \<open>Variable\<close>\<close>

lemma canonicalize_not_symmetric:
  assumes "\<not> is_symmetric self"
    and "attributes self ''PSD'' \<noteq> None" "attributes self ''NSD'' \<noteq> None"
  shows "canonicalize self =
     Inr (create_var (shape self) (id_var self),
          if attributes self ''nonneg'' = Some True
            then [create_geq (create_var (shape self) (id_var self))]
          else if attributes self ''nonpos'' = Some True
            then [create_leq (create_var (shape self) (id_var self))]
          else [])"
proof -
  have "attributes self ''PSD'' = Some False" "attributes self ''NSD'' = Some False"
    using assms by (auto simp: is_symmetric_def attr_set_def)
  then show ?thesis
    using assms(1)
    by (simp add: canonicalize_def is_nonneg_def is_nonpos_def attr_set_def getitem_dict_def)
qed

lemma canonicalize_symmetric:
  assumes "is_symmetric self" "shape self = [n, n]"
    and "attributes self ''PSD'' \<noteq> None" "attributes self ''NSD'' \<noteq> None"
    and "upper_tri_to_full n = Inr M"
  shows "canonicalize self =
     (if attributes self ''nonneg'' = Some True
        then Inr (packed_term n (id_var self) M, [create_geq (packed_term n (id_var self) M)])
      else if attributes self ''nonpos'' = Some True
        then Inr (packed_term n (id_var self) M, [create_leq (packed_term n (id_var self) M)])
      else if attributes self ''PSD'' = Some True
        then Inr (packed_term n (id_var self) M, [PSD (packed_term n (id_var self) M)])
      else if attributes self ''NSD'' = Some True
        then Inl AttributeError
      else Inr (packed_term n (id_var self) M, []))"
proof -
  obtain a b where ab: "attributes self ''PSD'' = Some a" "attributes self ''NSD'' = Some b"
    using assms(3,4) by auto
  show ?thesis
    using assms(1,2,5) ab
    by (simp add: canonicalize_def is_nonneg_def is_nonpos_def attr_set_def getitem_dict_def
          getitem_tuple_def packed_term_def neg_def Let_def del: One_nat_def)
qed

lemma well_constructed_keys:
  assumes "well_constructed self"
  shows "attributes self ''PSD'' \<noteq> None" "attributes self ''NSD'' \<noteq> None"
  using assms by (simp_all add: well_constructed_def)

lemma well_constructed_square:
  assumes "well_constructed self" "is_symmetric self"
  shows "\<exists>n. shape self = [n, n]"
proof -
  have "length (shape self) = 2" "shape self ! 0 = shape self ! 1"
    using assms by (simp_all add: well_constructed_def)
  then show ?thesis
    by (cases "shape self"; cases "tl (shape self)") auto
qed

text \<open>
  What \<open>canonicalize\<close> does on a well-constructed variable: the branch of the flag
  \<open>NSD\<close>, reached when none of \<open>nonneg\<close>, \<open>nonpos\<close> and \<open>PSD\<close> is set, raises;
  every other branch returns the affine term and at most one constraint on it.
\<close>

lemma canonicalize_nsd_branch:
  assumes "well_constructed self"
    and "attributes self ''nonneg'' \<noteq> Some True" "attributes self ''nonpos'' \<noteq> Some True"
    and "attributes self ''PSD'' \<noteq> Some True" "attributes self ''NSD'' = Some True"
  shows "canonicalize self = Inl AttributeError"
proof -
  have sym: "is_symmetric self" using assms(5) by (simp add: is_symmetric_def attr_set_def)
  obtain n where n: "shape self = [n, n]"
    using well_constructed_square [OF assms(1) sym] by blast
  show ?thesis
    using canonicalize_symmetric [OF sym n well_constructed_keys [OF assms(1)]
        upper_tri_to_full_eq [of n]] assms(2-5)
    by simp
qed

lemma canonicalize_other_branches:
  assumes "well_constructed self"
    and "attributes self ''nonneg'' = Some True \<or> attributes self ''nonpos'' = Some True
         \<or> attributes self ''PSD'' = Some True \<or> attributes self ''NSD'' \<noteq> Some True"
  shows "\<exists>obj cs. canonicalize self = Inr (obj, cs) \<and> length cs \<le> 1
           \<and> cs = (if attributes self ''nonneg'' = Some True then [create_geq obj]
                   else if attributes self ''nonpos'' = Some True then [create_leq obj]
                   else if attributes self ''PSD'' = Some True then [PSD obj]
                   else [])
           \<and> obj = (if is_symmetric self
                     then packed_term (hd (shape self)) (id_var self)
                            \<lparr>csc_shape = (hd (shape self) * hd (shape self),
                                          hd (shape self) * (hd (shape self) + 1) div 2),
                             csc_cols = map (col_of (hd (shape self)))
                                          (packed_pairs (hd (shape self)))\<rparr>
                     else create_var (shape self) (id_var self))"
proof (cases "is_symmetric self")
  case True
  obtain n where n: "shape self = [n, n]"
    using well_constructed_square [OF assms(1) True] by blast
  show ?thesis
    using canonicalize_symmetric [OF True n well_constructed_keys [OF assms(1)]
        upper_tri_to_full_eq [of n]] assms(2) True n
    by auto
next
  case False
  then have "attributes self ''PSD'' \<noteq> Some True" "attributes self ''NSD'' \<noteq> Some True"
    by (simp_all add: is_symmetric_def attr_set_def)
  then show ?thesis
    using canonicalize_not_symmetric [OF False well_constructed_keys [OF assms(1)]] False
    by simp
qed

lemma upper_tri_to_full_2:
  "upper_tri_to_full 2
   = Inr \<lparr>csc_shape = (4, 3), csc_cols = [[(0, 1)], [(1, 1), (2, 1)], [(3, 1)]]\<rparr>"
  by code_simp

lemma upper_tri_to_full_3:
  "upper_tri_to_full 3
   = Inr \<lparr>csc_shape = (9, 6),
          csc_cols = [[(0, 1)], [(1, 1), (3, 1)], [(2, 1), (6, 1)], [(4, 1)],
                      [(5, 1), (7, 1)], [(8, 1)]]\<rparr>"
  by code_simp

lemma nsd_examples_well_constructed:
  "well_constructed
     \<lparr>id_var = 7, name_var = ''var7'', primal_value = (None :: real list list option),
      shape = [2, 2], attributes = leaf_attributes [(''NSD'', True)]\<rparr>"
  "well_constructed
     \<lparr>id_var = 5, name_var = ''S'', primal_value = (None :: real list list option),
      shape = [3, 3], attributes = leaf_attributes [(''symmetric'', True), (''NSD'', True)]\<rparr>"
  by (auto simp: well_constructed_def leaf_attributes_def)

text \<open>
  Claim C2.  The claim is that \<open>canonicalize\<close> returns at most one constraint, chosen
  in the order nonneg, nonpos, PSD, NSD, and for NSD a semidefinite constraint on the
  negation of the affine term.  The first three branches do so (lemma
  \<open>canonicalize_other_branches\<close>); the branch of NSD calls \<open>lu.neg\<close>, which the
  module does not have, and raises \<open>AttributeError\<close> (lemma
  \<open>canonicalize_nsd_branch\<close>).  On a variable of shape \<open>(2, 2)\<close>, the flag \<open>PSD\<close>
  gives the semidefinite constraint on the affine term, and the flag \<open>NSD\<close> raises.
\<close>

theorem canonicalize_nsd_raises:
  "canonicalize
     \<lparr>id_var = 7, name_var = ''var7'', primal_value = (None :: real list list option),
      shape = [2, 2], attributes = leaf_attributes [(''PSD'', True)]\<rparr>
   = Inr (packed_term 2 7 \<lparr>csc_shape = (4, 3), csc_cols = [[(0, 1)], [(1, 1), (2, 1)], [(3, 1)]]\<rparr>,
          [PSD (packed_term 2 7
                  \<lparr>csc_shape = (4, 3), csc_cols = [[(0, 1)], [(1, 1), (2, 1)], [(3, 1)]]\<rparr>)])
   \<and> canonicalize
     \<lparr>id_var = 7, name_var = ''var7'', primal_value = (None :: real list list option),
      shape = [2, 2], attributes = leaf_attributes [(''NSD'', True)]\<rparr>
   = Inl AttributeError"
  by (simp add: canonicalize_def is_symmetric_def is_nonneg_def is_nonpos_def attr_set_def
        leaf_attributes_def getitem_tuple_def getitem_dict_def upper_tri_to_full_2 neg_def
        packed_term_def Let_def)

text \<open>
  Claim C3.  The claim is that \<open>canonicalize\<close> returns, when the symmetric structure
  is set (the flag \<open>symmetric\<close>, or \<open>PSD\<close> or \<open>NSD\<close>), the reshape of the product of
  the expansion map with a packed leaf, and otherwise a plain leaf.  Where it returns,
  the affine term is this one (lemma \<open>canonicalize_other_branches\<close>); but on a
  symmetric variable of shape \<open>(3, 3)\<close> whose flag \<open>NSD\<close> is set, the call raises
  \<open>AttributeError\<close> at \<open>lu.neg\<close> and returns no affine term.  A variable of
  shape \<open>(2, 3)\<close> with no flag set gives the plain leaf and no constraint.
\<close>

theorem canonicalize_nsd_no_affine_term:
  "canonicalize
     \<lparr>id_var = 4, name_var = ''var4'', primal_value = (None :: real list list option),
      shape = [2, 3], attributes = leaf_attributes []\<rparr>
   = Inr (create_var [2, 3] 4, [])
   \<and> canonicalize
     \<lparr>id_var = 5, name_var = ''S'', primal_value = (None :: real list list option),
      shape = [3, 3], attributes = leaf_attributes [(''symmetric'', True), (''NSD'', True)]\<rparr>
   = Inl AttributeError"
  by (simp add: canonicalize_def is_symmetric_def is_nonneg_def is_nonpos_def attr_set_def
        leaf_attributes_def getitem_tuple_def getitem_dict_def upper_tri_to_full_3 neg_def
        Let_def)

lemma scalar_and_vector_well_constructed:
  "well_constructed
     \<lparr>id_var = 0, name_var = ''var0'', primal_value = (None :: real list list option),
      shape = [], attributes = leaf_attributes []\<rparr>"
  "well_constructed
     \<lparr>id_var = 1, name_var = ''var1'', primal_value = (None :: real list list option),
      shape = [3], attributes = leaf_attributes []\<rparr>"
  by (auto simp: well_constructed_def leaf_attributes_def is_symmetric_def attr_set_def)

text \<open>
  Claim C5.  The claim is that neither \<open>canonicalize\<close> nor \<open>grad\<close> raises on a
  well-constructed variable, the shapes \<open>()\<close> and \<open>(k,)\<close> included.
  \<open>grad\<close> reads \<open>shape[0]\<close> and \<open>shape[1]\<close>: on the shape \<open>()\<close>, the default
  of the constructor, and on the shape \<open>(3,)\<close> it raises \<open>IndexError\<close>.  Both
  variables are well-constructed (lemma \<open>scalar_and_vector_well_constructed\<close>).
\<close>

theorem grad_raises_below_two_dimensions:
  "grad \<lparr>id_var = 0, name_var = ''var0'', primal_value = (None :: real list list option),
         shape = [], attributes = leaf_attributes []\<rparr> = Inl IndexError
   \<and> grad \<lparr>id_var = 1, name_var = ''var1'', primal_value = (None :: real list list option),
           shape = [3], attributes = leaf_attributes []\<rparr> = Inl IndexError"
  by (simp add: grad_def getitem_tuple_def)

lemma filter_eq_upt: "filter (\<lambda>i. i = c) [0..<k] = (if c < k then [c] else [])"
  by (induction k) auto

lemma coo_col_entries_eye:
  "coo_col_entries (sp_eye k) c = (if c < k then [(c, 1)] else [])"
proof -
  have "replicate k (1::real) = map (\<lambda>i. 1) [0..<k]"
    by (simp add: map_replicate_const)
  then have "zip [0..<k] (zip [0..<k] (replicate k (1::real))) = map (\<lambda>i. (i, i, 1)) [0..<k]"
    by (simp add: zip_map2 zip_same_conv_map)
  then have "coo_col_entries (sp_eye k) c = map (\<lambda>i. (i, 1)) (filter (\<lambda>i. i = c) [0..<k])"
    by (simp add: coo_col_entries_def sp_eye_def filter_map comp_def)
  then show ?thesis by (simp add: filter_eq_upt)
qed

lemma tocsc_eye:
  "tocsc (sp_eye k) = \<lparr>csc_shape = (k, k), csc_cols = map (\<lambda>c. [(c, 1)]) [0..<k]\<rparr>"
proof -
  have "map (\<lambda>c. csc_column (coo_col_entries (sp_eye k) c)) [0..<k] = map (\<lambda>c. [(c, 1)]) [0..<k]"
    by (rule map_cong) (simp_all add: coo_col_entries_eye csc_column_def sum_at_row_def)
  then show ?thesis by (simp add: tocsc_def sp_eye_def)
qed

lemma eye_entry:
  assumes "j < k"
  shows "csc_entry (tocsc (sp_eye k)) i j = (if i = j then 1 else 0)"
  using assms by (auto simp: tocsc_eye csc_entry_def sum_at_row_def)

lemma eye_matvec:
  assumes "length x = k"
  shows "matvec (tocsc (sp_eye k)) x = Inr x"
proof -
  have "sum_list (map (\<lambda>c. csc_entry (tocsc (sp_eye k)) r c * x ! c) [0..<k]) = x ! r"
    if "r < k" for r
  proof -
    have "map (\<lambda>c. csc_entry (tocsc (sp_eye k)) r c * x ! c) [0..<k]
          = map (\<lambda>c. (if c = r then 1 else 0) * x ! c) [0..<k]"
      by (rule map_cong) (auto simp: eye_entry)
    then show ?thesis using sum_list_delta [OF that, of "\<lambda>c. x ! c"] by (simp only:)
  qed
  then have "map (\<lambda>r. sum_list (map (\<lambda>c. csc_entry (tocsc (sp_eye k)) r c * x ! c) [0..<k])) [0..<k]
             = map (\<lambda>r. x ! r) [0..<k]"
    by (intro map_cong refl) simp
  also have "\<dots> = x" using assms map_nth [of x] by simp
  finally show ?thesis using assms by (simp add: matvec_def tocsc_eye)
qed

text \<open>
  Claim C9.  For a variable of shape \<open>(r, c)\<close>, \<open>grad\<close> returns a dictionary with
  exactly one key, the variable itself, whose value is the sparse identity matrix of
  size \<open>r * c\<close>: its shape is \<open>(r * c, r * c)\<close>, its entries are one on the diagonal and
  zero elsewhere, and its product with any vector of that length is the vector.
\<close>

theorem grad_is_identity:
  assumes "shape self = [r, c]"
  shows "\<exists>M. grad self = Inr [(self, M)]
           \<and> M = tocsc (sp_eye (r * c))
           \<and> csc_shape M = (r * c, r * c)
           \<and> (\<forall>i < r * c. \<forall>j < r * c. csc_entry M i j = (if i = j then 1 else 0))
           \<and> (\<forall>x. length x = r * c \<longrightarrow> matvec M x = Inr x)"
proof -
  have "grad self = Inr [(self, tocsc (sp_eye (r * c)))]"
    using assms by (simp add: grad_def getitem_tuple_def)
  moreover have "csc_shape (tocsc (sp_eye (r * c))) = (r * c, r * c)"
    by (simp add: tocsc_eye)
  ultimately show ?thesis using eye_entry eye_matvec by blast
qed

theorem grad_is_identity_witness:
  "shape \<lparr>id_var = 4, name_var = ''var4'', primal_value = (None :: real list list option),
          shape = [2, 1], attributes = leaf_attributes []\<rparr> = [2, 1]
   \<and> grad \<lparr>id_var = 4, name_var = ''var4'', primal_value = (None :: real list list option),
           shape = [2, 1], attributes = leaf_attributes []\<rparr>
     = Inr [(\<lparr>id_var = 4, name_var = ''var4'', primal_value = None,
              shape = [2, 1], attributes = leaf_attributes []\<rparr>,
             \<lparr>csc_shape = (2, 2), csc_cols = [[(0, 1)], [(1, 1)]]\<rparr>)]
   \<and> matvec \<lparr>csc_shape = (2, 2), csc_cols = [[(0, 1)], [(1, 1)]]\<rparr> [5, 7] = Inr [5, 7]"
proof -
  let ?v = "\<lparr>id_var = 4, name_var = ''var4'', primal_value = (None :: real list list option),
          shape = [2, 1], attributes = leaf_attributes []\<rparr>"
  have sh: "shape ?v = [2, 1]" by simp
  have eye: "tocsc (sp_eye (2 * 1)) = \<lparr>csc_shape = (2, 2), csc_cols = [[(0, 1)], [(1, 1)]]\<rparr>"
    by code_simp
  have len: "length [5, 7 :: real] = 2 * 1" by simp
  show ?thesis
    using grad_is_identity [OF sh] len unfolding eye by auto
qed

text \<open>
  Claim C6.  \<open>save_value\<close> stores its argument unchanged as the primal value, whatever
  the attributes of the variable, without validation and without expanding a packed
  vector; it does not raise, and the getter of \<open>value\<close> then returns that argument.
\<close>

theorem save_value_stores_unchanged:
  "save_value self v = self\<lparr>primal_value := v\<rparr>
   \<and> value_getter (save_value self v) = v
   \<and> invoke validate_value self (Call_save_value v) = (Inr Ret_none, save_value self v)
   \<and> invoke validate_value (save_value self v) Call_value
       = (Inr (Ret_value v), save_value self v)"
  by (simp add: save_value_def value_getter_def invoke_def)

text \<open>
  Claim C7.  When the delegated validation rejects the value, the setter of \<open>value\<close>
  raises the error of the validation and the instance, its primal value included, is as
  before the call; when the validation accepts, the validated value is stored.
\<close>

theorem value_setter_validates:
  "(validate_value self val = Inl e \<longrightarrow>
      value_setter validate_value self val = (Inl e, self)
      \<and> primal_value (snd (value_setter validate_value self val)) = primal_value self)
   \<and> (validate_value self val = Inr val' \<longrightarrow>
      value_setter validate_value self val = (Inr (), self\<lparr>primal_value := val'\<rparr>)
      \<and> value_getter (snd (value_setter validate_value self val)) = val')"
  by (simp add: value_setter_def save_value_def value_getter_def)

theorem value_setter_validates_witness:
  "validate_shape
     \<lparr>id_var = 4, name_var = ''var4'', primal_value = None, shape = [2, 3],
      attributes = leaf_attributes []\<rparr> (Some [[1, 2], [3, 4]]) = Inl ValueError
   \<and> value_setter validate_shape
       \<lparr>id_var = 4, name_var = ''var4'', primal_value = None, shape = [2, 3],
        attributes = leaf_attributes []\<rparr> (Some [[1, 2], [3, 4]])
     = (Inl ValueError,
        \<lparr>id_var = 4, name_var = ''var4'', primal_value = None, shape = [2, 3],
         attributes = leaf_attributes []\<rparr>)
   \<and> validate_shape
       \<lparr>id_var = 4, name_var = ''var4'', primal_value = None, shape = [2, 3],
        attributes = leaf_attributes []\<rparr> (Some [[1, 2, 3], [4, 5, 6]])
     = Inr (Some [[1, 2, 3], [4, 5, 6]])
   \<and> value_getter (snd (value_setter validate_shape
       \<lparr>id_var = 4, name_var = ''var4'', primal_value = None, shape = [2, 3],
        attributes = leaf_attributes []\<rparr> (Some [[1, 2, 3], [4, 5, 6]])))
     = Some [[1, 2, 3], [4, 5, 6]]"
proof -
  let ?v = "\<lparr>id_var = 4, name_var = ''var4'', primal_value = None, shape = [2, 3],
      attributes = leaf_attributes []\<rparr>"
  have bad: "validate_shape ?v (Some [[1, 2], [3, 4]]) = Inl ValueError"
    by (simp add: validate_shape_def)
  have good: "validate_shape ?v (Some [[1, 2, 3], [4, 5, 6]]) = Inr (Some [[1, 2, 3], [4, 5, 6]])"
    by (simp add: validate_shape_def)
  show ?thesis
    using value_setter_validates [of validate_shape ?v "Some [[1, 2], [3, 4]]" ValueError]
      value_setter_validates [of validate_shape ?v "Some [[1, 2, 3], [4, 5, 6]]" _
        "Some [[1, 2, 3], [4, 5, 6]]"]
      bad good
    by (simp add: value_getter_def)
qed

section \<open>The effect of the methods on the instance\<close>

lemma bind_st_frame:
  assumes "snd (m self) = self" "\<And>x. snd (f x self) = self"
  shows "snd (bind_st m f self) = self"
proof (cases "m self")
  case (Pair r self')
  then have "self' = self" using assms(1) by simp
  then show ?thesis using Pair assms(2) by (cases r) (simp_all add: bind_st_def)
qed

lemma read_st_frame: "snd (read_st f self) = self"
  by (simp add: read_st_def)

lemma call_st_frame: "snd (call_st f self) = self"
  by (simp add: call_st_def)

lemma lift_st_frame: "snd (lift_st r self) = self"
  by (simp add: lift_st_def)

lemma return_st_frame: "snd (return_st x self) = self"
  by (simp add: return_st_def)

lemmas st_frame = bind_st_frame read_st_frame call_st_frame lift_st_frame return_st_frame

lemma grad_st_frame: "snd (grad_st self) = self"
  unfolding grad_st_def by (intro st_frame)

lemma variables_st_frame: "snd (variables_st self) = self"
  unfolding variables_st_def by (intro st_frame)

lemma canonicalize_st_frame: "snd (canonicalize_st self) = self"
  unfolding canonicalize_st_def Let_def
  by (intro st_frame | simp only: if_split [where P = "\<lambda>m. snd (m self) = self"] | intro conjI impI)+

lemma grad_st_result: "fst (grad_st self) = grad self"
  by (simp add: grad_st_def grad_def bind_st_def call_st_def read_st_def return_st_def
        split: sum.splits)

lemma canonicalize_st_result: "fst (canonicalize_st self) = canonicalize self"
  by (simp add: canonicalize_st_def canonicalize_def bind_st_def call_st_def read_st_def
        lift_st_def return_st_def Let_def split: sum.splits)

lemma value_setter_st_eq:
  "value_setter_st validate_value val self = value_setter validate_value self val"
  by (simp add: value_setter_st_def value_setter_def save_value_st_def save_value_def
        assign_primal_value_def bind_st_def call_st_def split: sum.splits)

text \<open>
  Claim C10.  The bodies of \<open>canonicalize\<close>, \<open>grad\<close>, \<open>name\<close>, the getter of
  \<open>value\<close> and \<open>variables\<close>, with the instance threaded through every statement,
  end with the instance they started with, every field unchanged.  \<open>save_value\<close>
  and the setter of \<open>value\<close> end with an instance that differs from the one before
  at most in its primal value.  The threaded bodies return what the methods return.
\<close>

theorem methods_frame:
  "snd (canonicalize_st self) = self
   \<and> snd (grad_st self) = self
   \<and> snd (name_st self) = self
   \<and> snd (value_getter_st self) = self
   \<and> snd (variables_st self) = self
   \<and> snd (save_value_st val self) = self\<lparr>primal_value := val\<rparr>
   \<and> (\<exists>pv. snd (value_setter_st validate_value val self) = self\<lparr>primal_value := pv\<rparr>)
   \<and> fst (canonicalize_st self) = canonicalize self
   \<and> fst (grad_st self) = grad self
   \<and> fst (name_st self) = Inr (name self)
   \<and> fst (value_getter_st self) = Inr (value_getter self)
   \<and> fst (variables_st self) = Inr (variables self)
   \<and> snd (save_value_st val self) = save_value self val
   \<and> value_setter_st validate_value val self = value_setter validate_value self val"
proof -
  have setter: "\<exists>pv. snd (value_setter_st validate_value val self) = self\<lparr>primal_value := pv\<rparr>"
  proof (cases "validate_value self val")
    case (Inl e)
    have "snd (value_setter_st validate_value val self) = self"
      using Inl by (simp add: value_setter_st_eq value_setter_def)
    then have "snd (value_setter_st validate_value val self)
               = self\<lparr>primal_value := primal_value self\<rparr>"
      by simp
    then show ?thesis by (rule exI)
  next
    case (Inr val')
    then show ?thesis
      by (auto simp: value_setter_st_eq value_setter_def save_value_def)
  qed
  have reads: "snd (name_st self) = self" "snd (value_getter_st self) = self"
    "fst (name_st self) = Inr (name self)" "fst (value_getter_st self) = Inr (value_getter self)"
    "fst (variables_st self) = Inr (variables self)"
    by (simp_all add: name_st_def value_getter_st_def variables_st_def read_st_def bind_st_def
          return_st_def name_def value_getter_def variables_def)
  have save: "snd (save_value_st val self) = self\<lparr>primal_value := val\<rparr>"
    "snd (save_value_st val self) = save_value self val"
    by (simp_all add: save_value_st_def assign_primal_value_def save_value_def)
  show ?thesis
    using canonicalize_st_frame grad_st_frame variables_st_frame reads save setter
      canonicalize_st_result grad_st_result value_setter_st_eq
    by blast
qed

end
